theory Spec2Isabelle
  imports Main "HOL-Library.Word"
begin

unbundle bit_operations_syntax

section \<open>repnum: C types and constants\<close>

text \<open>
  \<open>unsigned long long\<close> and \<open>size_t\<close> are 64-bit words, \<open>int\<close> is a 32-bit word read
  in two's complement. A C string is the run of characters of a \<open>char list\<close> up to its
  first NUL; reading at or past the end of the list gives the terminator.
\<close>

type_synonym ull = "64 word"
type_synonym size_t = "64 word"
type_synonym cint = "32 word"

datatype errorcodes = SUCCESS | FAILURE | INVALID_ARGS | INCOMPLETE | OVERFLOW

definition NUL :: char where
  "NUL = CHR 0x00"

text \<open>The value of \<open>ERANGE\<close> in \<open>errno.h\<close> (Linux).\<close>

definition ERANGE :: int where
  "ERANGE = 34"

definition ULLONG_MAX :: ull where
  "ULLONG_MAX = 0xFFFFFFFFFFFFFFFF"

text \<open>\<open>s[i]\<close> for a C string held in a list without its terminator.\<close>

definition char_at :: "string \<Rightarrow> nat \<Rightarrow> char" where
  "char_at s i = (if i < length s then s ! i else NUL)"

section \<open>The C library's strtoull\<close>

text \<open>
  \<open>strtoull\<close> is not part of the repository; it is modelled after the C standard
  (7.22.1.4) in the C locale: leading white space is skipped, one sign is accepted, base
  16 and base 0 accept a \<open>0x\<close> prefix when a hexadecimal digit follows, base 0 picks
  octal after a leading \<open>0\<close> and decimal otherwise, the longest run of digits of the
  base is converted, a value above \<open>ULLONG_MAX\<close> gives \<open>ULLONG_MAX\<close> and sets
  \<open>errno\<close> to \<open>ERANGE\<close>, and a minus sign negates the converted value in the unsigned
  type. With no digits there is no conversion: the result is 0 and \<open>end\<close> is the start
  of the string.
\<close>

definition isspace :: "char \<Rightarrow> bool" where
  "isspace c \<longleftrightarrow> c = CHR '' '' \<or> c = CHR 0x09 \<or> c = CHR 0x0A \<or> c = CHR 0x0B
     \<or> c = CHR 0x0C \<or> c = CHR 0x0D"

definition digit_value :: "char \<Rightarrow> nat option" where
  "digit_value c =
     (let k = (of_char c :: nat) in
      if 48 \<le> k \<and> k \<le> 57 then Some (k - 48)
      else if 97 \<le> k \<and> k \<le> 122 then Some (k - 87)
      else if 65 \<le> k \<and> k \<le> 90 then Some (k - 55)
      else None)"

definition is_digit :: "nat \<Rightarrow> char \<Rightarrow> bool" where
  "is_digit b c = (case digit_value c of None \<Rightarrow> False | Some d \<Rightarrow> d < b)"

text \<open>Accumulation of the digits, most significant first, in unbounded arithmetic.\<close>

definition accumulate :: "nat \<Rightarrow> string \<Rightarrow> nat" where
  "accumulate b ds = foldl (\<lambda>a c. a * b + the (digit_value c)) 0 ds"

text \<open>The sign: whether it is a minus, and how many characters it takes.\<close>

fun read_sign :: "string \<Rightarrow> bool \<times> nat" where
  "read_sign [] = (False, 0)"
| "read_sign (c # cs) =
     (if c = CHR ''-'' then (True, 1) else if c = CHR ''+'' then (False, 1) else (False, 0))"

text \<open>The base in effect and the length of the prefix skipped, for a base of 0 or 2..36.\<close>

fun read_prefix :: "nat \<Rightarrow> string \<Rightarrow> nat \<times> nat" where
  "read_prefix b (z # x # h # cs) =
     (if (b = 0 \<or> b = 16) \<and> z = CHR ''0'' \<and> (x = CHR ''x'' \<or> x = CHR ''X'') \<and> is_digit 16 h
      then (16, 2)
      else if b = 0 then (if z = CHR ''0'' then (8, 0) else (10, 0))
      else (b, 0))"
| "read_prefix b cs =
     (if b = 0 then (case cs of [] \<Rightarrow> (10, 0) | z # _ \<Rightarrow> if z = CHR ''0'' then (8, 0) else (10, 0))
      else (b, 0))"

record strtoull_result =
  value_of :: ull
  end_of :: nat
  range_error :: bool

text \<open>
  \<open>end_of\<close> is the offset of \<open>end\<close> from the start of the string. The standard gives
  no meaning to a base other than 0 and 2..36: the model returns \<open>None\<close> there.
\<close>

definition strtoull :: "string \<Rightarrow> int \<Rightarrow> strtoull_result option" where
  "strtoull s base =
     (if base \<noteq> 0 \<and> (base < 2 \<or> 36 < base) then None
      else
        let nws = length (takeWhile isspace s);
            s1 = drop nws s;
            (neg, nsign) = read_sign s1;
            s2 = drop nsign s1;
            (b, npre) = read_prefix (nat base) s2;
            ds = takeWhile (is_digit b) (drop npre s2);
            v = accumulate b ds
        in if ds = [] then Some \<lparr>value_of = 0, end_of = 0, range_error = False\<rparr>
           else if v > unat ULLONG_MAX
           then Some \<lparr>value_of = ULLONG_MAX, end_of = nws + nsign + npre + length ds,
                      range_error = True\<rparr>
           else Some \<lparr>value_of = (if neg then - of_nat v else of_nat v),
                      end_of = nws + nsign + npre + length ds, range_error = False\<rparr>)"

section \<open>str2ull\<close>

text \<open>
  \<open>str\<close> is \<open>None\<close> for a null pointer. \<open>num\<close> is \<open>None\<close> for a null pointer and
  otherwise the content of the pointed-to variable; the result carries its content after
  the call, and \<open>errno\<close> after the call. The function does not clear \<open>errno\<close> before
  calling \<open>strtoull\<close>, so the value on entry is an input. The outer \<open>None\<close> is a base
  that \<open>strtoull\<close> gives no meaning to.
\<close>

definition str2ull ::
  "string option \<Rightarrow> ull option \<Rightarrow> cint \<Rightarrow> int \<Rightarrow> (errorcodes \<times> ull option \<times> int) option" where
  "str2ull str num base errno =
     (case str of
        None \<Rightarrow> Some (INVALID_ARGS, num, errno)
      | Some s \<Rightarrow>
          if char_at s 0 = NUL \<or> num = None then Some (INVALID_ARGS, num, errno)
          else
            (case strtoull s (sint base) of
               None \<Rightarrow> None
             | Some r \<Rightarrow>
                 let status = value_of r;
                     errno' = (if range_error r then ERANGE else errno)
                 in if status = 0 \<and> end_of r = 0 then Some (FAILURE, num, errno')
                    else if errno' = ERANGE then Some (OVERFLOW, num, errno')
                    else Some (if char_at s (end_of r) \<noteq> NUL then INCOMPLETE else SUCCESS,
                               Some status, errno')))"

section \<open>num2bin\<close>

text \<open>
  A \<open>char *\<close> result is the null pointer or a position in \<open>buf\<close>, given by its
  offset from the start of \<open>buf\<close> in \<open>size_t\<close> arithmetic (so \<open>&buf[-1]\<close> is offset
  \<open>- 1\<close>). The buffer is the list of its bytes; a store outside it is undefined
  behaviour, which the model reports as \<open>None\<close>.
\<close>

datatype cptr = Null | Offset size_t

definition store :: "string \<Rightarrow> size_t \<Rightarrow> char \<Rightarrow> string option" where
  "store buf i c = (if unat i < length buf then Some (buf[unat i := c]) else None)"

definition iseven :: "ull \<Rightarrow> bool" where
  "iseven n \<longleftrightarrow> n mod 2 = 0"

text \<open>
  The \<open>while (--n)\<close> loop; the argument \<open>n\<close> is the value before the decrement, the
  result holds the buffer and the value of \<open>n\<close> when the loop is left.
\<close>

function num2bin_loop :: "ull \<Rightarrow> string \<Rightarrow> size_t \<Rightarrow> (string \<times> size_t) option" where
  "num2bin_loop num buf n =
     (let n' = n - 1 in
      if n' = 0 then Some (buf, n')
      else
        let s = (if iseven num then CHR ''0'' else CHR ''1'') in
        case store buf (n' - 1) s of
          None \<Rightarrow> None
        | Some buf' \<Rightarrow>
            let num' = num div 2 in
            if num' = 0 then Some (buf', n') else num2bin_loop num' buf' n')"
  by pat_completeness auto
termination
  apply (relation "measure (\<lambda>(num, buf, n). unat (n - 1))")
   apply simp
  subgoal for num buf n
    using unat_minus_one [of "n - 1"] by (simp add: unat_gt_0)
  done

declare num2bin_loop.simps [simp del]

definition num2bin :: "ull \<Rightarrow> string \<Rightarrow> size_t \<Rightarrow> (string \<times> cptr) option" where
  "num2bin num buf n =
     (case store buf (n - 1) NUL of
        None \<Rightarrow> None
      | Some buf0 \<Rightarrow>
          (case num2bin_loop num buf0 n of
             None \<Rightarrow> None
           | Some (buf', n') \<Rightarrow> Some (buf', Offset (n' - 1))))"

text \<open>
  The string a pointer into the buffer designates, as \<open>printf("%s")\<close> reads it: the
  bytes from the offset up to the first NUL. \<open>None\<close> when the pointer is null or outside
  the buffer, or when no NUL follows inside the buffer.
\<close>

definition string_at :: "string \<Rightarrow> cptr \<Rightarrow> string option" where
  "string_at buf p =
     (case p of
        Null \<Rightarrow> None
      | Offset i \<Rightarrow>
          if unat i < length buf \<and> NUL \<in> set (drop (unat i) buf)
          then Some (takeWhile (\<lambda>c. c \<noteq> NUL) (drop (unat i) buf))
          else None)"

section \<open>The convenience functions and the driver\<close>

text \<open>
  \<open>errx\<close> and \<open>exit\<close> end the program: a function that may call them returns
  \<open>Halt\<close> with the exit code and what was printed. \<open>Undefined\<close> is undefined
  behaviour of the C program.
\<close>

datatype message =
    Not_a_valid_number "string option" cint
  | Too_large_number "string option"
  | Too_large_argv1
  | Unsupported_base cint
  | Unrecognized_option
  | Help_text
  | Version_text
  | Representations ull string

datatype halt = Exit int message

datatype 'a result = Undefined | Halt halt | Return 'a

text \<open>
  \<open>temp\<close> is the indeterminate initial content of the local variable \<open>temp\<close>, which
  the function returns when \<open>str2ull\<close> has not written through \<open>n\<close>. The result is
  the returned number and \<open>errno\<close> after the call.
\<close>

definition ensurenum ::
  "string option \<Rightarrow> ull option \<Rightarrow> cint \<Rightarrow> ull \<Rightarrow> int \<Rightarrow> (ull \<times> int) result" where
  "ensurenum s n b temp errno =
     (let n' = (case n of None \<Rightarrow> Some temp | Some v \<Rightarrow> Some v) in
      case str2ull s n' b errno of
        None \<Rightarrow> Undefined
      | Some (status, cell, errno') \<Rightarrow>
          (case status of
             FAILURE \<Rightarrow> Halt (Exit 1 (Not_a_valid_number s b))
           | INCOMPLETE \<Rightarrow> Halt (Exit 1 (Not_a_valid_number s b))
           | OVERFLOW \<Rightarrow> Halt (Exit 1 (Too_large_number s))
           | _ \<Rightarrow> (case cell of None \<Rightarrow> Undefined | Some v \<Rightarrow> Return (v, errno'))))"

definition ensurebase :: "cint \<Rightarrow> cint result" where
  "ensurebase b =
     (if b <s 2 \<or> 36 <s b then Halt (Exit 1 (Unsupported_base b)) else Return b)"

text \<open>
  \<open>getopt\<close> is the C library's: the options it hands out, in order, are a parameter
  of the model, as are the arguments left from \<open>argv[optind]\<close> on. \<open>temp k\<close> is the
  indeterminate content of \<open>ensurenum\<close>'s local variable at the call made when \<open>k\<close>
  options remain (0 for the call on the positional argument).
\<close>

datatype opt = Opt_unknown | Opt_b string | Opt_h | Opt_v

record numinfo =
  num :: ull
  base :: cint

fun parseopts_loop :: "opt list \<Rightarrow> cint \<Rightarrow> (nat \<Rightarrow> ull) \<Rightarrow> int \<Rightarrow> (cint \<times> int) result" where
  "parseopts_loop [] b temp errno = Return (b, errno)"
| "parseopts_loop (Opt_unknown # opts) b temp errno = Halt (Exit 1 Unrecognized_option)"
| "parseopts_loop (Opt_b optarg # opts) b temp errno =
     (case ensurenum (Some optarg) None 10 (temp (Suc (length opts))) errno of
        Undefined \<Rightarrow> Undefined
      | Halt h \<Rightarrow> Halt h
      | Return (v, errno') \<Rightarrow>
          (case ensurebase (ucast v) of
             Undefined \<Rightarrow> Undefined
           | Halt h \<Rightarrow> Halt h
           | Return b' \<Rightarrow> parseopts_loop opts b' temp errno'))"
| "parseopts_loop (Opt_h # opts) b temp errno = Halt (Exit 0 Help_text)"
| "parseopts_loop (Opt_v # opts) b temp errno = Halt (Exit 0 Version_text)"

definition parseopts ::
  "opt list \<Rightarrow> string list \<Rightarrow> numinfo \<Rightarrow> (nat \<Rightarrow> ull) \<Rightarrow> int \<Rightarrow> (numinfo \<times> int) result" where
  "parseopts opts args info temp errno =
     (case parseopts_loop opts (base info) temp errno of
        Undefined \<Rightarrow> Undefined
      | Halt h \<Rightarrow> Halt h
      | Return (b, errno') \<Rightarrow>
          (case args of
             [] \<Rightarrow> Halt (Exit 1 Help_text)
           | a # _ \<Rightarrow>
               (case ensurenum (Some a) None b (temp 0) errno' of
                  Undefined \<Rightarrow> Undefined
                | Halt h \<Rightarrow> Halt h
                | Return (v, errno'') \<Rightarrow> Return (info\<lparr>num := v, base := b\<rparr>, errno''))))"

text \<open>
  \<open>main\<close>: \<open>info\<close> is a global, zero at program start, as is \<open>errno\<close>; \<open>buffer\<close>
  is the indeterminate initial content of the 1024-byte local array. The diagnostic of
  the null-pointer branch names \<open>argv[1]\<close>.
\<close>

definition main :: "opt list \<Rightarrow> string list \<Rightarrow> (nat \<Rightarrow> ull) \<Rightarrow> string \<Rightarrow> halt option" where
  "main opts args temp buffer =
     (case parseopts opts args \<lparr>num = 0, base = 0\<rparr> temp 0 of
        Undefined \<Rightarrow> None
      | Halt h \<Rightarrow> Some h
      | Return (info, errno) \<Rightarrow>
          (case num2bin (num info) buffer 1024 of
             None \<Rightarrow> None
           | Some (buf, Null) \<Rightarrow> Some (Exit 1 Too_large_argv1)
           | Some (buf, Offset i) \<Rightarrow>
               (case string_at buf (Offset i) of
                  None \<Rightarrow> None
                | Some res \<Rightarrow> Some (Exit 0 (Representations (num info) res)))))"

section \<open>What the specification speaks of\<close>

text \<open>
  The notions of the specification, defined without reference to the code: the digit
  alphabet of the bases 2..36 (letters in either case), a valid numeral of a base (a
  non-empty run of digits of that base), the number a numeral denotes in positional
  notation, the minimal binary representation of a number, and its number of significant
  binary digits.
\<close>

definition lower_digits :: string where
  "lower_digits = ''0123456789abcdefghijklmnopqrstuvwxyz''"

definition upper_digits :: string where
  "upper_digits = ''0123456789ABCDEFGHIJKLMNOPQRSTUVWXYZ''"

fun position :: "char \<Rightarrow> string \<Rightarrow> nat option" where
  "position c [] = None"
| "position c (d # ds) = (if c = d then Some 0 else map_option Suc (position c ds))"

definition numeral_digit :: "char \<Rightarrow> nat option" where
  "numeral_digit c =
     (case position c lower_digits of Some d \<Rightarrow> Some d | None \<Rightarrow> position c upper_digits)"

definition base_digit :: "nat \<Rightarrow> char \<Rightarrow> bool" where
  "base_digit b c = (case numeral_digit c of None \<Rightarrow> False | Some d \<Rightarrow> d < b)"

definition valid_numeral :: "nat \<Rightarrow> string \<Rightarrow> bool" where
  "valid_numeral b s \<longleftrightarrow> s \<noteq> [] \<and> list_all (base_digit b) s"

definition denoted :: "nat \<Rightarrow> string \<Rightarrow> nat" where
  "denoted b s = (\<Sum>i < length s. the (numeral_digit (s ! i)) * b ^ (length s - Suc i))"

fun significant_digits :: "nat \<Rightarrow> nat" where
  "significant_digits v = (if v < 2 then 1 else Suc (significant_digits (v div 2)))"

fun binary :: "nat \<Rightarrow> string" where
  "binary v =
     (if v < 2 then [if v = 0 then CHR ''0'' else CHR ''1'']
      else binary (v div 2) @ [if even v then CHR ''0'' else CHR ''1''])"

text \<open>
  The base in effect and the run of digits of a numeral: under the auto-detect base 0 a
  \<open>0x\<close> or \<open>0X\<close> prefix announces hexadecimal digits, a leading \<open>0\<close> an octal
  numeral, anything else a decimal one; under base 16 the prefix is optional.
\<close>

fun numeral_parts :: "nat \<Rightarrow> string \<Rightarrow> nat \<times> string" where
  "numeral_parts b (z # x # d # ds) =
     (if (b = 0 \<or> b = 16) \<and> z = CHR ''0'' \<and> (x = CHR ''x'' \<or> x = CHR ''X'') then (16, d # ds)
      else if b = 0 then (if z = CHR ''0'' then (8, z # x # d # ds) else (10, z # x # d # ds))
      else (b, z # x # d # ds))"
| "numeral_parts b s =
     (if b = 0 then (case s of [] \<Rightarrow> (10, s) | z # _ \<Rightarrow> if z = CHR ''0'' then (8, s) else (10, s))
      else (b, s))"

declare significant_digits.simps [simp del] binary.simps [simp del]

section \<open>The digit alphabet and positional notation\<close>

lemma digit_value_numeral_digit: "digit_value c = numeral_digit c"
proof (cases c)
  case (Char b0 b1 b2 b3 b4 b5 b6 b7)
  show ?thesis
    unfolding Char
    by (cases b0; cases b1; cases b2; cases b3; cases b4; cases b5; cases b6; cases b7;
        simp add: digit_value_def numeral_digit_def lower_digits_def upper_digits_def)
qed

lemma is_digit_base_digit: "is_digit b c = base_digit b c"
  by (simp add: is_digit_def base_digit_def digit_value_numeral_digit)

lemma accumulate_snoc:
  "accumulate b (ds @ [c]) = accumulate b ds * b + the (digit_value c)"
  by (simp add: accumulate_def)

lemma denoted_snoc:
  "denoted b (ds @ [c]) = denoted b ds * b + the (numeral_digit c)"
proof -
  have "(\<Sum>i < length ds. the (numeral_digit ((ds @ [c]) ! i)) * b ^ (length ds - i))
      = (\<Sum>i < length ds. the (numeral_digit (ds ! i)) * b ^ (length ds - Suc i) * b)"
  proof (rule sum.cong)
    fix i assume "i \<in> {..< length ds}"
    then have i: "i < length ds" by simp
    then have "length ds - i = Suc (length ds - Suc i)" by simp
    with i show "the (numeral_digit ((ds @ [c]) ! i)) * b ^ (length ds - i)
        = the (numeral_digit (ds ! i)) * b ^ (length ds - Suc i) * b"
      by (simp add: nth_append)
  qed simp
  then show ?thesis
    by (simp add: denoted_def sum_distrib_right)
qed

lemma accumulate_denoted: "accumulate b ds = denoted b ds"
proof (induction ds rule: rev_induct)
  case Nil
  show ?case by (simp add: accumulate_def denoted_def)
next
  case (snoc c ds)
  then show ?case
    by (simp add: accumulate_snoc denoted_snoc digit_value_numeral_digit)
qed

section \<open>strtoull and str2ull on runs of digits\<close>

lemma is_digit_not_isspace: "is_digit b c \<Longrightarrow> \<not> isspace c"
  by (auto simp: is_digit_def digit_value_def isspace_def Let_def split: if_splits)

lemma is_digit_not_sign: "is_digit b c \<Longrightarrow> c \<noteq> CHR ''-'' \<and> c \<noteq> CHR ''+''"
  by (auto simp: is_digit_def digit_value_def Let_def split: if_splits)

lemma is_digit_not_NUL: "is_digit b c \<Longrightarrow> c \<noteq> NUL"
  by (auto simp: is_digit_def digit_value_def Let_def NUL_def split: if_splits)

lemma x_not_hex: "\<not> is_digit 16 (CHR ''x'')" "\<not> is_digit 16 (CHR ''X'')"
  by (simp_all add: is_digit_def digit_value_def)

lemma takeWhile_all: "list_all P xs \<Longrightarrow> takeWhile P xs = xs"
  by (induction xs) auto

lemma read_prefix_digits:
  assumes "list_all (is_digit b) s" and "2 \<le> b"
  shows "read_prefix b s = (b, 0)"
proof (cases s)
  case Nil
  with assms show ?thesis by simp
next
  case s1: (Cons z s1)
  show ?thesis
  proof (cases s1)
    case Nil
    with s1 assms show ?thesis by simp
  next
    case s2: (Cons x s2)
    show ?thesis
    proof (cases s2)
      case Nil
      with s1 s2 assms show ?thesis by simp
    next
      case (Cons h cs)
      with s1 s2 assms show ?thesis
        using x_not_hex by auto
    qed
  qed
qed

lemma strtoull_digits:
  assumes "list_all (is_digit (nat B)) s" and "s \<noteq> []" and "2 \<le> B" and "B \<le> 36"
  shows "strtoull s B =
     Some (if denoted (nat B) s > unat ULLONG_MAX
           then \<lparr>value_of = ULLONG_MAX, end_of = length s, range_error = True\<rparr>
           else \<lparr>value_of = of_nat (denoted (nat B) s), end_of = length s,
                 range_error = False\<rparr>)"
proof -
  obtain c cs where s: "s = c # cs" and c: "is_digit (nat B) c"
    using assms(1,2) by (cases s) auto
  have ws: "takeWhile isspace s = []"
    using s c by (simp add: is_digit_not_isspace)
  have sign: "read_sign s = (False, 0)"
    using s c is_digit_not_sign [of "nat B" c] by simp
  have pre: "read_prefix (nat B) s = (nat B, 0)"
    using assms by (intro read_prefix_digits) auto
  have ds: "takeWhile (is_digit (nat B)) s = s"
    using assms(1) by (rule takeWhile_all)
  show ?thesis
    using assms(2-4) by (simp add: strtoull_def ws sign pre ds accumulate_denoted)
qed

lemma valid_numeral_digits:
  "valid_numeral b s \<longleftrightarrow> s \<noteq> [] \<and> list_all (is_digit b) s"
  by (simp add: valid_numeral_def is_digit_base_digit [abs_def])

lemma char_at_end: "char_at s (length s) = NUL"
  by (simp add: char_at_def)

lemma char_at_digit: "s \<noteq> [] \<Longrightarrow> list_all (is_digit b) s \<Longrightarrow> char_at s 0 \<noteq> NUL"
  by (cases s) (auto simp: char_at_def dest: is_digit_not_NUL)

lemma str2ull_valid_numeral:
  assumes "2 \<le> sint B" and "sint B \<le> 36"
    and "valid_numeral (nat (sint B)) s"
    and "denoted (nat (sint B)) s < 2 ^ 64"
    and "errno \<noteq> ERANGE"
  shows "str2ull (Some s) (Some old) B errno =
           Some (SUCCESS, Some (of_nat (denoted (nat (sint B)) s)), errno)"
proof -
  have d: "s \<noteq> []" "list_all (is_digit (nat (sint B))) s"
    using assms(3) by (simp_all add: valid_numeral_digits)
  have r: "strtoull s (sint B) =
      Some \<lparr>value_of = of_nat (denoted (nat (sint B)) s), end_of = length s,
            range_error = False\<rparr>"
    using strtoull_digits [OF d(2,1) assms(1,2)] assms(4) by (simp add: ULLONG_MAX_def)
  show ?thesis
    using d assms(5) by (simp add: str2ull_def r char_at_end char_at_digit)
qed

lemma read_prefix_parts:
  assumes "numeral_parts b N = (b', ds)" and "valid_numeral b' ds"
  shows "read_prefix b N = (b', length N - length ds) \<and> drop (length N - length ds) N = ds"
proof (cases N)
  case Nil
  with assms(1) show ?thesis by (auto split: if_splits)
next
  case s1: (Cons z s1)
  show ?thesis
  proof (cases s1)
    case Nil
    with s1 assms(1) show ?thesis by (auto split: if_splits)
  next
    case s2: (Cons x s2)
    show ?thesis
    proof (cases s2)
      case Nil
      with s1 s2 assms(1) show ?thesis by (auto split: if_splits)
    next
      case (Cons h cs)
      show ?thesis
      proof (cases "(b = 0 \<or> b = 16) \<and> z = CHR ''0'' \<and> (x = CHR ''x'' \<or> x = CHR ''X'')")
        case True
        with s1 s2 Cons assms(1) have p: "b' = 16" "ds = h # cs" by auto
        with assms(2) have "is_digit 16 h"
          by (simp add: valid_numeral_digits)
        with True s1 s2 Cons p show ?thesis by auto
      next
        case False
        with s1 s2 Cons assms(1) show ?thesis by (auto split: if_splits)
      qed
    qed
  qed
qed

lemma takeWhile_isspace_minus:
  "list_all isspace W \<Longrightarrow> takeWhile isspace (W @ CHR ''-'' # N) = W"
  by (induction W) (simp_all add: isspace_def)

lemma strtoull_minus_text:
  assumes "list_all isspace W" and "B = 0 \<or> 2 \<le> B \<and> B \<le> 36"
    and "numeral_parts (nat B) N = (b, ds)" and "valid_numeral b ds"
  shows "strtoull (W @ CHR ''-'' # N) B =
     Some (if denoted b ds > unat ULLONG_MAX
           then \<lparr>value_of = ULLONG_MAX, end_of = length W + Suc (length N), range_error = True\<rparr>
           else \<lparr>value_of = - of_nat (denoted b ds), end_of = length W + Suc (length N),
                 range_error = False\<rparr>)"
proof -
  have ws: "takeWhile isspace (W @ CHR ''-'' # N) = W"
    using assms(1) by (rule takeWhile_isspace_minus)
  have pre: "read_prefix (nat B) N = (b, length N - length ds)"
    and dr: "drop (length N - length ds) N = ds"
    using read_prefix_parts [OF assms(3,4)] by simp_all
  have "length (drop (length N - length ds) N) = length ds"
    by (simp only: dr)
  then have len: "length N - length ds + length ds = length N"
    by simp
  have d: "ds \<noteq> []" "list_all (is_digit b) ds"
    using assms(4) by (simp_all add: valid_numeral_digits)
  then have tw: "takeWhile (is_digit b) ds = ds"
    by (simp add: takeWhile_all)
  have B: "\<not> (B \<noteq> 0 \<and> (B < 2 \<or> 36 < B))"
    using assms(2) by auto
  show ?thesis
    using d(1) len
    by (simp add: strtoull_def B ws pre dr tw accumulate_denoted Let_def add.assoc)
qed

lemma str2ull_minus_text:
  assumes "list_all isspace W" and "sint B = 0 \<or> 2 \<le> sint B \<and> sint B \<le> 36"
    and "numeral_parts (nat (sint B)) N = (b, ds)" and "valid_numeral b ds"
    and "denoted b ds < 2 ^ 64"
    and "errno \<noteq> ERANGE"
  shows "str2ull (Some (W @ CHR ''-'' # N)) (Some old) B errno =
           Some (SUCCESS, Some (- of_nat (denoted b ds)), errno)"
proof -
  let ?s = "W @ CHR ''-'' # N"
  have r: "strtoull ?s (sint B) =
      Some \<lparr>value_of = - of_nat (denoted b ds), end_of = length W + Suc (length N),
            range_error = False\<rparr>"
    using strtoull_minus_text [OF assms(1-4)] assms(5) by (simp add: ULLONG_MAX_def)
  have e: "char_at ?s (Suc (length W + length N)) = NUL"
    by (simp add: char_at_def)
  have "char_at ?s 0 \<noteq> NUL"
    using assms(1) by (cases W) (auto simp: char_at_def NUL_def isspace_def)
  then show ?thesis
    using assms(6) by (simp add: str2ull_def r e)
qed

lemma str2ull_overflow_valid_numeral:
  assumes "2 \<le> sint B" and "sint B \<le> 36"
    and "valid_numeral (nat (sint B)) s"
    and "2 ^ 64 \<le> denoted (nat (sint B)) s"
  shows "str2ull (Some s) (Some old) B errno = Some (OVERFLOW, Some old, ERANGE)"
proof -
  have d: "s \<noteq> []" "list_all (is_digit (nat (sint B))) s"
    using assms(3) by (simp_all add: valid_numeral_digits)
  have r: "strtoull s (sint B) =
      Some \<lparr>value_of = ULLONG_MAX, end_of = length s, range_error = True\<rparr>"
    using strtoull_digits [OF d(2,1) assms(1,2)] assms(4) by (simp add: ULLONG_MAX_def)
  show ?thesis
    using d by (simp add: str2ull_def r char_at_digit ULLONG_MAX_def)
qed

section \<open>The minimal binary representation\<close>

lemma length_binary: "length (binary v) = significant_digits v"
proof (induction v rule: binary.induct)
  case (1 v)
  then show ?case
    by (subst binary.simps, subst significant_digits.simps) simp
qed

lemma binary_chars: "set (binary v) \<subseteq> {CHR ''0'', CHR ''1''}"
proof (induction v rule: binary.induct)
  case (1 v)
  then show ?case
    by (subst binary.simps) auto
qed

lemma NUL_notin_binary: "NUL \<notin> set (binary v)"
  using binary_chars [of v] by (auto simp: NUL_def)

lemma binary_not_Nil: "binary v \<noteq> []"
  by (subst binary.simps) simp

lemma numeral_digit_01:
  "numeral_digit (CHR ''0'') = Some 0" "numeral_digit (CHR ''1'') = Some 1"
  by (simp_all add: numeral_digit_def lower_digits_def)

lemma denoted_single: "denoted b [c] = the (numeral_digit c)"
  by (simp add: denoted_def)

lemma denoted_binary: "denoted 2 (binary v) = v"
proof (induction v rule: binary.induct)
  case (1 v)
  show ?case
  proof (cases "v < 2")
    case True
    then have "v = 0 \<or> v = 1" by auto
    then show ?thesis
      by (subst binary.simps) (auto simp: denoted_single numeral_digit_01)
  next
    case False
    with 1 have "denoted 2 (binary (v div 2)) = v div 2" by simp
    with False show ?thesis
      by (subst binary.simps) (auto simp: denoted_snoc numeral_digit_01 elim: oddE)
  qed
qed

lemma valid_numeral_binary: "valid_numeral 2 (binary v)"
proof -
  have "base_digit 2 c" if "c \<in> set (binary v)" for c
    using that binary_chars [of v] by (auto simp: base_digit_def numeral_digit_01)
  then show ?thesis
    by (simp add: valid_numeral_def binary_not_Nil list_all_iff)
qed

lemma hd_binary: "v \<noteq> 0 \<Longrightarrow> hd (binary v) = CHR ''1''"
proof (induction v rule: binary.induct)
  case (1 v)
  show ?case
  proof (cases "v < 2")
    case True
    with 1(2) show ?thesis by (subst binary.simps) simp
  next
    case False
    then have "v div 2 \<noteq> 0" by simp
    with 1(1) False have "hd (binary (v div 2)) = CHR ''1''" by simp
    with False show ?thesis
      by (subst binary.simps) (simp add: binary_not_Nil)
  qed
qed

lemma binary_0: "binary 0 = ''0''"
  by (simp add: binary.simps)

lemma significant_digits_le: "v < 2 ^ k \<Longrightarrow> 0 < k \<Longrightarrow> significant_digits v \<le> k"
proof (induction v arbitrary: k rule: significant_digits.induct)
  case (1 v)
  show ?case
  proof (cases "v < 2")
    case True
    with 1(3) show ?thesis by (subst significant_digits.simps) simp
  next
    case False
    then obtain j where k: "k = Suc j"
      using 1(3) by (cases k) auto
    with 1(2) False have "0 < j" by (cases j) auto
    moreover from 1(2) k have "v div 2 < 2 ^ j" by auto
    ultimately have "significant_digits (v div 2) \<le> j"
      using 1(1) False by simp
    with False k show ?thesis by (subst significant_digits.simps) simp
  qed
qed

lemma significant_digits_bounds:
  "v < 2 ^ significant_digits v \<and> (v \<noteq> 0 \<longrightarrow> 2 ^ (significant_digits v - 1) \<le> v)"
proof (induction v rule: significant_digits.induct)
  case (1 v)
  show ?case
  proof (cases "v < 2")
    case True
    then show ?thesis by (subst (1 2) significant_digits.simps) auto
  next
    case False
    with 1 have ih: "v div 2 < 2 ^ significant_digits (v div 2)"
      "2 ^ (significant_digits (v div 2) - 1) \<le> v div 2" by auto
    have pos: "0 < significant_digits (v div 2)"
      by (subst significant_digits.simps) simp
    have sd: "significant_digits v = Suc (significant_digits (v div 2))"
      using False by (subst significant_digits.simps) simp
    from ih(1) have "v < 2 * 2 ^ significant_digits (v div 2)" by linarith
    moreover from ih(2) have "2 * 2 ^ (significant_digits (v div 2) - 1) \<le> v" by linarith
    moreover have "(2::nat) * 2 ^ (significant_digits (v div 2) - 1) = 2 ^ significant_digits (v div 2)"
      using pos by (cases "significant_digits (v div 2)") auto
    ultimately show ?thesis by (simp add: sd)
  qed
qed

section \<open>The loop of num2bin\<close>

lemma iseven_unat: "iseven v \<longleftrightarrow> even (unat v)"
proof -
  have "v mod 2 = 0 \<longleftrightarrow> unat (v mod 2) = 0"
    by (simp add: unat_eq_0)
  then show ?thesis
    by (simp add: iseven_def unat_mod even_iff_mod_2_eq_zero)
qed

lemma div2_eq_0: "(v :: ull) div 2 = 0 \<longleftrightarrow> unat v < 2"
proof -
  have "v div 2 = 0 \<longleftrightarrow> unat (v div 2) = 0"
    by (simp add: unat_eq_0)
  then show ?thesis
    by (simp add: unat_div div_eq_0_iff)
qed

lemma significant_digits_pos: "0 < significant_digits v"
  by (subst significant_digits.simps) simp

lemma num2bin_loop_spec:
  "significant_digits (unat v) < unat n \<Longrightarrow> unat n \<le> length buf \<Longrightarrow>
   num2bin_loop v buf n =
     Some (take (unat n - 1 - significant_digits (unat v)) buf @ binary (unat v)
             @ drop (unat n - 1) buf,
           n - of_nat (significant_digits (unat v)))"
proof (induction v buf n rule: num2bin_loop.induct)
  case (1 v buf n)
  let ?k = "unat n"
  define s where "s = (if iseven v then CHR ''0'' else CHR ''1'')"
  have k2: "2 \<le> ?k"
    using "1.prems"(1) significant_digits_pos [of "unat v"] by simp
  then have n0: "n \<noteq> 0"
    by auto
  have n1: "unat (n - 1) = ?k - 1"
    using n0 by (simp add: unat_minus_one)
  then have n10: "n - 1 \<noteq> 0"
    using k2 by (auto simp flip: unat_eq_0)
  have n2: "unat (n - 1 - 1) = ?k - 2"
    using unat_minus_one [OF n10] n1 by simp
  then have n2': "unat (n - 2) = ?k - 2"
    by simp
  have len: "?k \<le> length buf"
    using "1.prems"(2) by simp
  have st: "store buf (n - 1 - 1) s = Some (buf[?k - 2 := s])"
    using k2 len by (simp add: store_def n2')
  have upd: "buf[?k - 2 := s] = take (?k - 2) buf @ [s] @ drop (?k - 1) buf"
  proof -
    have "Suc (?k - 2) = ?k - 1" using k2 by simp
    moreover have "?k - 2 < length buf" using k2 len by simp
    ultimately show ?thesis by (simp add: upd_conv_take_nth_drop)
  qed
  have e: "?k - Suc (Suc 0) = ?k - 2"
    by simp
  show ?case
  proof (cases "v div 2 = 0")
    case True
    then have small: "unat v < 2" by (simp add: div2_eq_0)
    then have sd: "significant_digits (unat v) = 1"
      by (subst significant_digits.simps) simp
    have bin: "binary (unat v) = [s]"
      using small by (subst binary.simps) (auto simp: s_def iseven_unat)
    have "num2bin_loop v buf n = Some (buf[?k - 2 := s], n - 1)"
      using True n10 st by (subst num2bin_loop.simps) (simp add: Let_def s_def)
    then show ?thesis
      by (simp add: sd bin upd e)
  next
    case False
    then have big: "\<not> unat v < 2" by (simp add: div2_eq_0)
    define d where "d = significant_digits (unat v div 2)"
    have sd: "significant_digits (unat v) = Suc d"
      using big by (subst significant_digits.simps) (simp add: d_def)
    have bin: "binary (unat v) = binary (unat v div 2) @ [s]"
      using big by (subst binary.simps) (simp add: s_def iseven_unat)
    have dk: "Suc d < ?k"
      using "1.prems"(1) by (simp add: sd)
    have ih: "num2bin_loop (v div 2) (buf[?k - 2 := s]) (n - 1) =
        Some (take (?k - 1 - 1 - d) (buf[?k - 2 := s]) @ binary (unat v div 2)
                @ drop (?k - 1 - 1) (buf[?k - 2 := s]),
              n - 1 - of_nat d)"
      using "1.IH" [OF refl n10 refl st [unfolded s_def] refl False] dk len
      by (simp add: n1 unat_div d_def s_def)
    have t: "take (?k - 1 - 1 - d) (buf[?k - 2 := s]) = take (?k - 1 - Suc d) buf"
      by simp
    have dr: "drop (?k - 2) (buf[?k - 2 := s]) = s # drop (?k - 1) buf"
    proof -
      have "drop (?k - 2) (take (?k - 2) buf @ [s] @ drop (?k - 1) buf)
          = s # drop (?k - 1) buf"
        using k2 len by simp
      then show ?thesis by (simp only: upd)
    qed
    have "num2bin_loop v buf n = num2bin_loop (v div 2) (buf[?k - 2 := s]) (n - 1)"
      using False n10 st by (subst num2bin_loop.simps) (simp add: Let_def s_def)
    then show ?thesis
      by (simp add: ih t dr sd bin e)
  qed
qed

lemma num2bin_spec:
  assumes "significant_digits (unat v) < unat n" and "unat n \<le> length buf"
  shows "num2bin v buf n =
           Some (take (unat n - 1 - significant_digits (unat v)) buf @ binary (unat v)
                   @ NUL # drop (unat n) buf,
                 Offset (n - of_nat (significant_digits (unat v)) - 1))"
    and "unat (n - of_nat (significant_digits (unat v)) - 1)
           = unat n - 1 - significant_digits (unat v)"
proof -
  let ?k = "unat n" and ?d = "significant_digits (unat v)"
  have k1: "0 < ?k"
    using assms(1) by simp
  then have n0: "n \<noteq> 0"
    by auto
  have n1: "unat (n - 1) = ?k - 1"
    using n0 by (simp add: unat_minus_one)
  have st: "store buf (n - 1) NUL = Some (buf[?k - 1 := NUL])"
    using k1 assms(2) by (simp add: store_def n1)
  have upd: "buf[?k - 1 := NUL] = take (?k - 1) buf @ NUL # drop ?k buf"
    using k1 assms(2) by (simp add: upd_conv_take_nth_drop)
  have lp: "num2bin_loop v (buf[?k - 1 := NUL]) n =
      Some (take (?k - 1 - ?d) (buf[?k - 1 := NUL]) @ binary (unat v)
              @ drop (?k - 1) (buf[?k - 1 := NUL]), n - of_nat ?d)"
    using assms by (intro num2bin_loop_spec) simp_all
  have t: "take (?k - 1 - ?d) (buf[?k - 1 := NUL]) = take (?k - 1 - ?d) buf"
    by simp
  have dr: "drop (?k - 1) (buf[?k - 1 := NUL]) = NUL # drop ?k buf"
  proof -
    have "drop (?k - 1) (take (?k - 1) buf @ NUL # drop ?k buf) = NUL # drop ?k buf"
      using k1 assms(2) by simp
    then show ?thesis by (simp only: upd)
  qed
  show "num2bin v buf n =
           Some (take (?k - 1 - ?d) buf @ binary (unat v) @ NUL # drop ?k buf,
                 Offset (n - of_nat ?d - 1))"
    by (simp only: num2bin_def st lp t dr option.case prod.case)
  have "?d < 2 ^ 64"
    using assms(1) unsigned_less [of n, where 'a = nat] by simp
  then have ud: "unat (of_nat ?d :: size_t) = ?d"
    by (simp add: unat_of_nat)
  then have "unat (n - of_nat ?d) = ?k - ?d"
    using assms(1) by (simp add: unat_sub_if')
  moreover have "n - of_nat ?d \<noteq> 0"
    using calculation assms(1) by (auto simp flip: unat_eq_0)
  ultimately show "unat (n - of_nat ?d - 1) = ?k - 1 - ?d"
    by (simp add: unat_minus_one)
qed

lemma string_at_binary:
  assumes "p = length pre" and "unat i = p"
  shows "string_at (pre @ binary w @ NUL # post) (Offset i) = Some (binary w)"
proof -
  have "takeWhile (\<lambda>c. c \<noteq> NUL) (binary w @ NUL # post) = binary w"
    using NUL_notin_binary [of w] by (auto simp: takeWhile_tail)
  then show ?thesis
    using assms by (simp add: string_at_def)
qed

lemma num2bin_string:
  assumes "significant_digits (unat v) < unat n" and "unat n \<le> length buf"
  shows "\<exists>buf' p. num2bin v buf n = Some (buf', p) \<and> p \<noteq> Null
           \<and> string_at buf' p = Some (binary (unat v))"
proof -
  have "length (take (unat n - 1 - significant_digits (unat v)) buf)
      = unat n - 1 - significant_digits (unat v)"
    using assms by simp
  then show ?thesis
    using num2bin_spec [OF assms] string_at_binary by (metis cptr.distinct(1))
qed

section \<open>The driver\<close>

lemma significant_digits_ull: "significant_digits (unat (V :: ull)) \<le> 64"
proof -
  have "unat V < 2 ^ 64"
    using unsigned_less [of V, where 'a = nat] by simp
  then show ?thesis
    by (rule significant_digits_le) simp
qed

lemma str2ull_binary:
  assumes "errno \<noteq> ERANGE"
  shows "str2ull (Some (binary (unat V))) (Some old) 2 errno = Some (SUCCESS, Some V, errno)"
proof -
  have "unat V < 2 ^ 64"
    using unsigned_less [of V, where 'a = nat] by simp
  then show ?thesis
    using str2ull_valid_numeral [of 2 "binary (unat V)" errno old] assms
    by (simp add: valid_numeral_binary denoted_binary)
qed

lemma main_prints:
  assumes "parseopts opts args \<lparr>num = 0, base = 0\<rparr> temp 0 = Return (info, e)"
    and "length buffer = 1024"
  shows "main opts args temp buffer =
           Some (Exit 0 (Representations (num info) (binary (unat (num info)))))"
proof -
  have "significant_digits (unat (num info)) < unat (1024 :: size_t)"
    using significant_digits_ull [of "num info"] by simp
  moreover have "unat (1024 :: size_t) \<le> length buffer"
    using assms(2) by simp
  ultimately obtain buf' p where "num2bin (num info) buffer 1024 = Some (buf', p)"
    and "p \<noteq> Null" and "string_at buf' p = Some (binary (unat (num info)))"
    using num2bin_string by blast
  then show ?thesis
    using assms(1) by (cases p) (simp_all add: main_def)
qed

lemma ensurenum_valid_numeral:
  assumes "2 \<le> sint B" and "sint B \<le> 36"
    and "valid_numeral (nat (sint B)) s"
    and "denoted (nat (sint B)) s < 2 ^ 64"
    and "errno \<noteq> ERANGE"
  shows "ensurenum (Some s) None B temp errno = Return (of_nat (denoted (nat (sint B)) s), errno)"
  using str2ull_valid_numeral [OF assms, of temp] by (simp add: ensurenum_def)

text \<open>
  \<open>str2ull\<close> tests \<open>errno\<close> without clearing it first, so its classification
  depends on \<open>errno\<close> not being \<open>ERANGE\<close> on entry. In the program this always
  holds: \<open>errno\<close> is 0 at start, and a call of \<open>ensurenum\<close> that returns leaves it
  different from \<open>ERANGE\<close>.
\<close>

lemma ensurenum_errno:
  "ensurenum s n B temp errno = Return (v, errno') \<Longrightarrow> errno \<noteq> ERANGE \<Longrightarrow> errno' \<noteq> ERANGE"
  by (auto simp: ensurenum_def str2ull_def Let_def
      split: option.splits if_splits errorcodes.splits)

lemma parseopts_loop_errno:
  "parseopts_loop opts b temp errno = Return (b', errno') \<Longrightarrow> errno \<noteq> ERANGE
     \<Longrightarrow> errno' \<noteq> ERANGE"
proof (induction opts arbitrary: b errno)
  case Nil
  then show ?case by simp
next
  case (Cons x opts)
  show ?case
  proof (cases x)
    case (Opt_b optarg)
    with Cons.prems(1) obtain v e c
      where en: "ensurenum (Some optarg) None 10 (temp (Suc (length opts))) errno = Return (v, e)"
        and lp: "parseopts_loop opts c temp e = Return (b', errno')"
      by (auto split: result.splits)
    from ensurenum_errno [OF en Cons.prems(2)] have "e \<noteq> ERANGE" .
    with Cons.IH [OF lp] show ?thesis .
  next
    case Opt_unknown
    with Cons.prems(1) show ?thesis by simp
  next
    case Opt_h
    with Cons.prems(1) show ?thesis by simp
  next
    case Opt_v
    with Cons.prems(1) show ?thesis by simp
  qed
qed

lemma unat_narrow: "unat (ucast (w :: ull) :: cint) = unat w mod 2 ^ 32"
  by (simp add: unsigned_ucast_eq take_bit_eq_mod)

lemma sint_cint:
  "sint (c :: cint) = (if uint c < 2 ^ 31 then uint c else uint c - 2 ^ 32)"
proof -
  have u: "uint c = sint c mod 2 ^ 32"
    using uint_sint [of c] by (simp add: take_bit_eq_mod)
  have lo: "- (2 ^ 31) \<le> sint c" and hi: "sint c < 2 ^ 31"
    using sint_ge [of c] sint_lt [of c] by simp_all
  show ?thesis
  proof (cases "0 \<le> sint c")
    case True
    with hi have "sint c mod 2 ^ 32 = sint c"
      by (intro mod_pos_pos_trivial) simp_all
    with u hi show ?thesis by simp
  next
    case False
    with lo have "(sint c + 2 ^ 32) mod 2 ^ 32 = sint c + 2 ^ 32"
      by (intro mod_pos_pos_trivial) simp_all
    then have "uint c = sint c + 2 ^ 32"
      using u by simp
    with lo False show ?thesis by simp
  qed
qed

lemma ensurebase_unat:
  "ensurebase c = (if 2 \<le> unat c \<and> unat c \<le> 36 then Return c
                   else Halt (Exit 1 (Unsupported_base c)))"
proof -
  have "uint c < 2 ^ 32" "0 \<le> uint c"
    using uint_lt2p [of c] by simp_all
  then have "(sint c < 2 \<or> 36 < sint c) \<longleftrightarrow> \<not> (2 \<le> uint c \<and> uint c \<le> 36)"
    by (simp add: sint_cint) linarith
  moreover have "(2 \<le> unat c \<and> unat c \<le> 36) \<longleftrightarrow> (2 \<le> uint c \<and> uint c \<le> 36)"
    unfolding unat_eq_nat_uint by linarith
  ultimately show ?thesis
    by (simp only: ensurebase_def word_sless_alt sint_numeral) simp
qed

section \<open>The claims of the specification\<close>

text \<open>
  C1. Round trip: whatever 64-bit value \<open>V\<close> is formatted by \<open>num2bin\<close> into a buffer
  of 1024 bytes, \<open>str2ull\<close> in base 2 on the string returned gives \<open>SUCCESS\<close> and
  stores \<open>V\<close> (with \<open>errno\<close> not left at \<open>ERANGE\<close> by an earlier call).
\<close>

theorem binary_round_trip:
  assumes "length buf = 1024" and "errno \<noteq> ERANGE"
  shows "\<exists>buf' p s. num2bin V buf 1024 = Some (buf', p) \<and> string_at buf' p = Some s
           \<and> str2ull (Some s) (Some old) 2 errno = Some (SUCCESS, Some V, errno)"
proof -
  have "significant_digits (unat V) < unat (1024 :: size_t)"
    using significant_digits_ull [of V] by simp
  moreover have "unat (1024 :: size_t) \<le> length buf"
    using assms(1) by simp
  ultimately obtain buf' p where "num2bin V buf 1024 = Some (buf', p)"
    and "string_at buf' p = Some (binary (unat V))"
    using num2bin_string by blast
  then show ?thesis
    using str2ull_binary [OF assms(2)] by blast
qed

theorem binary_round_trip_witness:
  "length (replicate 1024 (CHR ''a'')) = 1024 \<and> (0 :: int) \<noteq> ERANGE
   \<and> (\<exists>buf' p s. num2bin 5 (replicate 1024 (CHR ''a'')) 1024 = Some (buf', p)
         \<and> string_at buf' p = Some s
         \<and> str2ull (Some s) (Some 7) 2 0 = Some (SUCCESS, Some 5, 0))"
  using binary_round_trip [of "replicate 1024 (CHR ''a'')" 0 5 7]
  by (simp add: ERANGE_def)

text \<open>
  C2. Parser correctness: for a base from 2 to 36 and a valid numeral of that base (digits
  and letters in either case) whose value fits in 64 bits, \<open>str2ull\<close> returns
  \<open>SUCCESS\<close> and stores exactly the denoted value (with \<open>errno\<close> not left at
  \<open>ERANGE\<close> by an earlier call).
\<close>

theorem str2ull_correct:
  assumes "2 \<le> sint B" and "sint B \<le> 36"
    and "valid_numeral (nat (sint B)) N"
    and "denoted (nat (sint B)) N < 2 ^ 64"
    and "errno \<noteq> ERANGE"
  shows "\<exists>v. str2ull (Some N) (Some old) B errno = Some (SUCCESS, Some v, errno)
           \<and> unat v = denoted (nat (sint B)) N"
proof -
  have "unat (of_nat (denoted (nat (sint B)) N) :: ull) = denoted (nat (sint B)) N"
    using assms(4) by (simp add: unat_of_nat)
  then show ?thesis
    using str2ull_valid_numeral [OF assms] by blast
qed

theorem str2ull_correct_witness:
  "2 \<le> sint (16 :: cint) \<and> sint (16 :: cint) \<le> 36
   \<and> valid_numeral (nat (sint (16 :: cint))) ''fF''
   \<and> denoted (nat (sint (16 :: cint))) ''fF'' < 2 ^ 64
   \<and> (0 :: int) \<noteq> ERANGE
   \<and> (\<exists>v. str2ull (Some ''fF'') (Some 7) 16 0 = Some (SUCCESS, Some v, 0) \<and> unat v = 255)"
proof -
  have d: "denoted 16 ''fF'' = 255"
    by (simp add: accumulate_def digit_value_def flip: accumulate_denoted)
  have v: "valid_numeral 16 ''fF''"
    by (simp add: valid_numeral_digits is_digit_def digit_value_def)
  show ?thesis
    using str2ull_correct [of 16 "''fF''" 0 7] d v by (simp add: ERANGE_def)
qed

text \<open>
  C3. The claim: with a capacity below the number of significant binary digits plus one,
  \<open>num2bin\<close> returns the null pointer. The code never returns it: the result is always
  \<open>&buf[n-1]\<close>. For the value 4 and a 3-byte buffer the loop runs \<open>n\<close> down to 0 after
  writing two digits and the result is \<open>&buf[-1]\<close>, one byte before the buffer, where
  no string of the buffer starts.
\<close>

theorem num2bin_never_null:
  "num2bin v buf n \<noteq> Some (buf', Null)
   \<and> significant_digits (unat (4 :: ull)) + 1 = 4
   \<and> num2bin 4 ''abc'' 3 = Some ([CHR ''0'', CHR ''0'', NUL], Offset (- 1))
   \<and> string_at [CHR ''0'', CHR ''0'', NUL] (Offset (- 1)) = None"
proof -
  have "num2bin v buf n \<noteq> Some (buf', Null)"
    by (auto simp: num2bin_def split: option.splits)
  moreover have "significant_digits (unat (4 :: ull)) + 1 = 4"
    by (simp add: significant_digits.simps)
  moreover have "num2bin 4 ''abc'' 3 = Some ([CHR ''0'', CHR ''0'', NUL], Offset (- 1))"
    by (simp add: num2bin_def num2bin_loop.simps store_def iseven_def)
  moreover have "string_at [CHR ''0'', CHR ''0'', NUL] (Offset (- 1)) = None"
    by (simp add: string_at_def unsigned_minus_1_eq_mask mask_eq_exp_minus_1)
  ultimately show ?thesis by blast
qed

text \<open>
  C4. Output shape: with a capacity \<open>n\<close> of at least the number of significant binary
  digits of \<open>V\<close> plus one (and a buffer of at least \<open>n\<close> bytes), \<open>num2bin\<close> returns
  the minimal binary representation of \<open>V\<close>: binary digits only, denoting \<open>V\<close>, of
  length the number of significant digits, which is the least length that can hold
  \<open>V\<close>, starting with \<open>1\<close> unless \<open>V\<close> is 0, and the single digit \<open>0\<close> when it is.
\<close>

theorem num2bin_minimal:
  assumes "significant_digits (unat V) + 1 \<le> unat n" and "unat n \<le> length buf"
  shows "\<exists>buf' p s. num2bin V buf n = Some (buf', p) \<and> string_at buf' p = Some s
           \<and> s = binary (unat V)
           \<and> set s \<subseteq> {CHR ''0'', CHR ''1''}
           \<and> denoted 2 s = unat V
           \<and> length s = significant_digits (unat V)
           \<and> unat V < 2 ^ length s
           \<and> (V \<noteq> 0 \<longrightarrow> hd s = CHR ''1'' \<and> 2 ^ (length s - 1) \<le> unat V)
           \<and> (V = 0 \<longrightarrow> s = ''0'')"
proof -
  from assms have "significant_digits (unat V) < unat n"
    by simp
  then obtain buf' p where r: "num2bin V buf n = Some (buf', p)"
    "string_at buf' p = Some (binary (unat V))"
    using num2bin_string [OF _ assms(2)] by blast
  have nz: "unat V \<noteq> 0" if "V \<noteq> 0"
    using that by (simp add: unat_eq_0)
  have "set (binary (unat V)) \<subseteq> {CHR ''0'', CHR ''1''}"
    by (rule binary_chars)
  moreover have "denoted 2 (binary (unat V)) = unat V"
    by (rule denoted_binary)
  moreover have "length (binary (unat V)) = significant_digits (unat V)"
    by (rule length_binary)
  moreover have "unat V < 2 ^ length (binary (unat V))"
    using significant_digits_bounds [of "unat V"] by (simp add: length_binary)
  moreover have "V \<noteq> 0 \<longrightarrow> hd (binary (unat V)) = CHR ''1''
      \<and> 2 ^ (length (binary (unat V)) - 1) \<le> unat V"
    using significant_digits_bounds [of "unat V"] hd_binary [of "unat V"] nz
    by (simp add: length_binary)
  moreover have "V = 0 \<longrightarrow> binary (unat V) = ''0''"
    by (simp add: binary_0)
  ultimately show ?thesis
    using r by blast
qed

theorem num2bin_minimal_witness:
  "significant_digits (unat (0 :: ull)) + 1 \<le> unat (2 :: size_t)
   \<and> unat (2 :: size_t) \<le> length ''ab''
   \<and> (\<exists>buf' p s. num2bin 0 ''ab'' 2 = Some (buf', p) \<and> string_at buf' p = Some s
         \<and> s = ''0'' \<and> length s = 1)"
proof -
  have h: "significant_digits (unat (0 :: ull)) + 1 \<le> unat (2 :: size_t)"
    "unat (2 :: size_t) \<le> length ''ab''"
    by (simp_all add: significant_digits.simps)
  show ?thesis
    using num2bin_minimal [OF h] h by (auto simp: significant_digits.simps)
qed

text \<open>
  C5. The claim: on an absent or empty text \<open>str2ull\<close> returns \<open>INVALID_ARGS\<close> and
  leaves the stored value alone, and the program then aborts with a diagnostic and exit
  code 1. The first half holds. The second does not: \<open>ensurenum\<close> has no case for
  \<open>INVALID_ARGS\<close> and returns its never-written local variable, so \<open>parseopts\<close>
  returns normally, and the program run on the empty argument prints the representations
  of that indeterminate number and exits with 0.
\<close>

theorem invalid_args_not_fatal:
  "str2ull None cell B errno = Some (INVALID_ARGS, cell, errno)
   \<and> str2ull (Some s) None B errno = Some (INVALID_ARGS, None, errno)
   \<and> str2ull (Some '''') cell B errno = Some (INVALID_ARGS, cell, errno)
   \<and> str2ull (Some (NUL # s)) cell B errno = Some (INVALID_ARGS, cell, errno)
   \<and> ensurenum (Some '''') None B t errno = Return (t, errno)
   \<and> parseopts [] [''''] \<lparr>num = 0, base = 0\<rparr> temp 0 = Return (\<lparr>num = temp 0, base = 0\<rparr>, 0)
   \<and> main [] [''''] (\<lambda>k. 5) (replicate 1024 NUL) = Some (Exit 0 (Representations 5 ''101''))"
proof -
  have a: "str2ull None cell B errno = Some (INVALID_ARGS, cell, errno)"
    "str2ull (Some s) None B errno = Some (INVALID_ARGS, None, errno)"
    "str2ull (Some '''') cell B errno = Some (INVALID_ARGS, cell, errno)"
    "str2ull (Some (NUL # s)) cell B errno = Some (INVALID_ARGS, cell, errno)"
    by (simp_all add: str2ull_def char_at_def)
  have b: "ensurenum (Some '''') None B t errno = Return (t, errno)" for B t errno
    by (simp add: ensurenum_def str2ull_def char_at_def)
  have c: "parseopts [] [''''] \<lparr>num = 0, base = 0\<rparr> temp 0
      = Return (\<lparr>num = temp 0, base = 0\<rparr>, 0)" for temp
    by (simp add: parseopts_def b)
  have "main [] [''''] (\<lambda>k. 5) (replicate 1024 NUL)
      = Some (Exit 0 (Representations 5 (binary (unat (5 :: ull)))))"
    using main_prints [OF c, of "replicate 1024 NUL" "\<lambda>k. 5"] by simp
  then have d: "main [] [''''] (\<lambda>k. 5) (replicate 1024 NUL)
      = Some (Exit 0 (Representations 5 ''101''))"
    by (simp add: binary.simps)
  show ?thesis
    using a b c d by blast
qed

text \<open>
  C6. Overflow: for a valid numeral whose value exceeds the 64-bit range, as
  \<open>99999999999999999999\<close> in base 10, \<open>str2ull\<close> returns \<open>OVERFLOW\<close> and the
  caller's variable keeps its content.
\<close>

theorem str2ull_overflow:
  assumes "2 \<le> sint B" and "sint B \<le> 36"
    and "valid_numeral (nat (sint B)) N"
    and "2 ^ 64 \<le> denoted (nat (sint B)) N"
  shows "str2ull (Some N) (Some old) B errno = Some (OVERFLOW, Some old, ERANGE)"
  using assms by (rule str2ull_overflow_valid_numeral)

theorem str2ull_overflow_witness:
  "2 \<le> sint (10 :: cint) \<and> sint (10 :: cint) \<le> 36
   \<and> valid_numeral (nat (sint (10 :: cint))) ''99999999999999999999''
   \<and> 2 ^ 64 \<le> denoted (nat (sint (10 :: cint))) ''99999999999999999999''
   \<and> str2ull (Some ''99999999999999999999'') (Some 7) 10 0 = Some (OVERFLOW, Some 7, ERANGE)"
proof -
  have d: "denoted 10 ''99999999999999999999'' = 99999999999999999999"
    by (simp add: accumulate_def digit_value_def flip: accumulate_denoted)
  have v: "valid_numeral 10 ''99999999999999999999''"
    by (simp add: valid_numeral_digits is_digit_def digit_value_def)
  show ?thesis
    using str2ull_overflow [of 10 "''99999999999999999999''" 7 0] d v by simp
qed

text \<open>
  C7. \<open>12x\<close> in base 10 is \<open>INCOMPLETE\<close>: the value 12 is stored and the suffix
  \<open>x\<close> is left unconsumed (with \<open>errno\<close> not left at \<open>ERANGE\<close> by an earlier call).
  \<open>x12\<close> is \<open>FAILURE\<close>: nothing is consumed and the variable keeps its content.
\<close>

theorem str2ull_partial_and_invalid:
  "(errno \<noteq> ERANGE \<longrightarrow>
      str2ull (Some ''12x'') (Some old) 10 errno = Some (INCOMPLETE, Some 12, errno))
   \<and> map_option (\<lambda>r. drop (end_of r) ''12x'') (strtoull ''12x'' 10) = Some ''x''
   \<and> str2ull (Some ''x12'') (Some old) 10 errno = Some (FAILURE, Some old, errno)
   \<and> map_option end_of (strtoull ''x12'' 10) = Some 0"
  by (simp add: str2ull_def strtoull_def char_at_def NUL_def isspace_def is_digit_def
      digit_value_def accumulate_def ULLONG_MAX_def Let_def)

theorem str2ull_partial_and_invalid_witness:
  "(0 :: int) \<noteq> ERANGE
   \<and> str2ull (Some ''12x'') (Some 7) 10 0 = Some (INCOMPLETE, Some 12, 0)
   \<and> str2ull (Some ''x12'') (Some 7) 10 0 = Some (FAILURE, Some 7, 0)"
  using str2ull_partial_and_invalid [of 0 7] by (simp add: ERANGE_def)

text \<open>
  C8. \<open>ensurebase\<close> ends the program with the unsupported-base diagnostic exactly when
  its argument is below 2 or above 36, and returns the argument unchanged otherwise; 1
  and 37 fail, 2 and 36 pass.
\<close>

theorem ensurebase_bounds:
  "ensurebase b = (if sint b < 2 \<or> 36 < sint b then Halt (Exit 1 (Unsupported_base b))
                   else Return b)
   \<and> ensurebase 1 = Halt (Exit 1 (Unsupported_base 1))
   \<and> ensurebase 37 = Halt (Exit 1 (Unsupported_base 37))
   \<and> ensurebase 2 = Return 2
   \<and> ensurebase 36 = Return 36"
  by (simp add: ensurebase_def word_sless_alt)

text \<open>
  C9. The claim: \<open>str2ull\<close> never returns \<open>SUCCESS\<close> on a text that starts with a
  minus sign. It does: \<open>strtoull\<close> accepts the sign and negates in the unsigned type,
  so \<open>-1\<close> in base 10 is \<open>SUCCESS\<close> with the value \<open>2^64 - 1\<close>.
\<close>

theorem minus_sign_counterexample:
  "str2ull (Some ''-1'') (Some 0) 10 0 = Some (SUCCESS, Some 18446744073709551615, 0)"
  by (simp add: str2ull_def strtoull_def char_at_def NUL_def isspace_def is_digit_def
      digit_value_def accumulate_def ULLONG_MAX_def ERANGE_def Let_def)

text \<open>
  C9, amended. For every base, explicit from 2 to 36 or the auto-detect base 0, a text
  made of optional leading white space, a minus sign and a numeral of that base (under
  auto-detect a hexadecimal numeral after \<open>0x\<close>, an octal one with a leading \<open>0\<close> or a
  decimal one; under base 16 with or without \<open>0x\<close>) whose value \<open>v\<close> fits in 64 bits
  is accepted: when \<open>errno\<close> is not \<open>ERANGE\<close> on entry, \<open>str2ull\<close> returns
  \<open>SUCCESS\<close> and stores the negation of \<open>v\<close> in unsigned 64-bit arithmetic,
  \<open>(2^64 - v) mod 2^64\<close>.
\<close>

theorem str2ull_minus_sign:
  assumes "list_all isspace W"
    and "sint B = 0 \<or> 2 \<le> sint B \<and> sint B \<le> 36"
    and "numeral_parts (nat (sint B)) N = (b, ds)"
    and "valid_numeral b ds"
    and "denoted b ds < 2 ^ 64"
    and "errno \<noteq> ERANGE"
  shows "\<exists>v. str2ull (Some (W @ CHR ''-'' # N)) (Some old) B errno = Some (SUCCESS, Some v, errno)
           \<and> unat v = (2 ^ 64 - denoted b ds) mod 2 ^ 64"
proof -
  have "unat (of_nat (denoted b ds) :: ull) = denoted b ds"
    using assms(5) by (simp add: unat_of_nat)
  then have "unat (- of_nat (denoted b ds) :: ull) = (2 ^ 64 - denoted b ds) mod 2 ^ 64"
    using unat_sub_if' [of 0 "of_nat (denoted b ds) :: ull"] assms(5)
    by (cases "denoted b ds = 0") simp_all
  then show ?thesis
    using str2ull_minus_text [OF assms] by blast
qed

theorem str2ull_minus_sign_witness:
  "list_all isspace '' '' \<and> sint (0 :: cint) = 0
   \<and> numeral_parts (nat (sint (0 :: cint))) ''0x1F'' = (16, ''1F'')
   \<and> valid_numeral 16 ''1F'' \<and> denoted 16 ''1F'' < 2 ^ 64 \<and> (0 :: int) \<noteq> ERANGE
   \<and> (\<exists>v. str2ull (Some '' -0x1F'') (Some 7) 0 0 = Some (SUCCESS, Some v, 0)
         \<and> unat v = 18446744073709551585)
   \<and> list_all isspace '''' \<and> 2 \<le> sint (10 :: cint) \<and> sint (10 :: cint) \<le> 36
   \<and> numeral_parts (nat (sint (10 :: cint))) ''42'' = (10, ''42'')
   \<and> valid_numeral 10 ''42'' \<and> denoted 10 ''42'' < 2 ^ 64
   \<and> (\<exists>v. str2ull (Some ''-42'') (Some 7) 10 0 = Some (SUCCESS, Some v, 0)
         \<and> unat v = 18446744073709551574)"
proof -
  have d: "denoted 16 ''1F'' = 31" "denoted 10 ''42'' = 42"
    by (simp_all add: accumulate_def digit_value_def flip: accumulate_denoted)
  have v: "valid_numeral 16 ''1F''" "valid_numeral 10 ''42''"
    by (simp_all add: valid_numeral_digits is_digit_def digit_value_def)
  have w: "list_all isspace '' ''" "list_all isspace ''''"
    by (simp_all add: isspace_def)
  have p: "numeral_parts (nat (sint (0 :: cint))) ''0x1F'' = (16, ''1F'')"
    "numeral_parts (nat (sint (10 :: cint))) ''42'' = (10, ''42'')"
    by simp_all
  have e: "(0 :: int) \<noteq> ERANGE"
    by (simp add: ERANGE_def)
  have "\<exists>v. str2ull (Some '' -0x1F'') (Some 7) 0 0 = Some (SUCCESS, Some v, 0)
         \<and> unat v = 18446744073709551585"
    using str2ull_minus_sign [OF w(1) _ p(1) v(1) _ e, of 7] d by simp
  moreover have "\<exists>v. str2ull (Some ''-42'') (Some 7) 10 0 = Some (SUCCESS, Some v, 0)
         \<and> unat v = 18446744073709551574"
    using str2ull_minus_sign [OF w(2) _ p(2) v(2) _ e, of 7] d by simp
  ultimately show ?thesis
    using d v w p e by simp
qed

text \<open>
  C10. The argument of \<open>-b\<close> is read by \<open>ensurenum\<close> as a 64-bit number in base 10 and
  converted to \<open>int\<close> on the way into \<open>ensurebase\<close>, which sees only the low 32 bits:
  a candidate is accepted exactly when its value modulo \<open>2^32\<close> lies between 2 and 36,
  and that residue becomes the base, as with 4294967298, which is used as base 2.
\<close>

theorem base_option_narrowed:
  assumes "valid_numeral 10 optarg" and "denoted 10 optarg < 2 ^ 64" and "errno \<noteq> ERANGE"
  shows "parseopts_loop (Opt_b optarg # opts) b temp errno =
           (if 2 \<le> denoted 10 optarg mod 2 ^ 32 \<and> denoted 10 optarg mod 2 ^ 32 \<le> 36
            then parseopts_loop opts (of_nat (denoted 10 optarg mod 2 ^ 32)) temp errno
            else Halt (Exit 1 (Unsupported_base (of_nat (denoted 10 optarg mod 2 ^ 32)))))
         \<and> sint (of_nat (denoted 10 optarg mod 2 ^ 32) :: cint) =
             (if denoted 10 optarg mod 2 ^ 32 < 2 ^ 31 then int (denoted 10 optarg mod 2 ^ 32)
              else int (denoted 10 optarg mod 2 ^ 32) - 2 ^ 32)"
proof -
  let ?v = "denoted 10 optarg"
  let ?c = "ucast (of_nat ?v :: ull) :: cint"
  have en: "ensurenum (Some optarg) None 10 (temp (Suc (length opts))) errno
      = Return (of_nat ?v, errno)"
    using ensurenum_valid_numeral [of 10 optarg errno] assms by simp
  have "unat (of_nat ?v :: ull) = ?v"
    using assms(2) by (simp add: unat_of_nat)
  then have uc: "unat ?c = ?v mod 2 ^ 32"
    by (simp add: unat_narrow)
  then have c: "?c = of_nat (?v mod 2 ^ 32)"
    by (metis of_nat_unat ucast_id)
  have "parseopts_loop (Opt_b optarg # opts) b temp errno =
      (if 2 \<le> ?v mod 2 ^ 32 \<and> ?v mod 2 ^ 32 \<le> 36
       then parseopts_loop opts ?c temp errno
       else Halt (Exit 1 (Unsupported_base ?c)))"
    by (simp add: en ensurebase_unat uc)
  moreover have "sint ?c = (if ?v mod 2 ^ 32 < 2 ^ 31 then int (?v mod 2 ^ 32)
      else int (?v mod 2 ^ 32) - 2 ^ 32)"
  proof -
    have "uint ?c = int (?v mod 2 ^ 32)"
      by (simp only: uint_nat uc)
    then show ?thesis
      by (simp only: sint_cint) simp
  qed
  ultimately show ?thesis
    by (simp only: c)
qed

theorem base_option_narrowed_witness:
  "valid_numeral 10 ''4294967298'' \<and> denoted 10 ''4294967298'' < 2 ^ 64
   \<and> (0 :: int) \<noteq> ERANGE
   \<and> parseopts_loop [Opt_b ''4294967298''] 0 (\<lambda>k. 0) 0 = Return (2, 0)
   \<and> parseopts [Opt_b ''4294967298''] [''101''] \<lparr>num = 0, base = 0\<rparr> (\<lambda>k. 0) 0
       = Return (\<lparr>num = 5, base = 2\<rparr>, 0)"
proof -
  have d: "denoted 10 ''4294967298'' = 4294967298"
    by (simp add: accumulate_def digit_value_def flip: accumulate_denoted)
  have v: "valid_numeral 10 ''4294967298''"
    by (simp add: valid_numeral_digits is_digit_def digit_value_def)
  have e: "(0 :: int) \<noteq> ERANGE"
    by (simp add: ERANGE_def)
  have l: "parseopts_loop [Opt_b ''4294967298''] 0 (\<lambda>k. 0) 0 = Return (2, 0)"
    using base_option_narrowed [OF v _ e, of "[]" 0 "\<lambda>k. 0"] d by simp
  have d2: "denoted 2 ''101'' = 5"
    by (simp add: accumulate_def digit_value_def flip: accumulate_denoted)
  have v2: "valid_numeral 2 ''101''"
    by (simp add: valid_numeral_digits is_digit_def digit_value_def)
  have "ensurenum (Some ''101'') None 2 0 0 = Return (5, 0)"
    using ensurenum_valid_numeral [of 2 "''101''" 0 "0"] d2 v2 e by simp
  then have "parseopts [Opt_b ''4294967298''] [''101''] \<lparr>num = 0, base = 0\<rparr> (\<lambda>k. 0) 0
       = Return (\<lparr>num = 5, base = 2\<rparr>, 0)"
    by (simp only: parseopts_def l numinfo.simps result.case prod.case list.case)
  with d v e l show ?thesis by simp
qed

end
